theory Spec2Isabelle
  imports Main "HOL-Library.AList"
begin

section \<open>Python values\<close>

text \<open>
  A Python \<open>str\<close> is a sequence of Unicode code points; \<open>len\<close> and slicing count code
  points. The notification text of the source contains characters beyond Latin-1
  (for instance U+0178 and U+201D), so a string is modelled as the list of its code
  points. \<open>lit\<close> turns an ASCII literal into such a list.
\<close>

type_synonym str = "nat list"

definition lit :: "string \<Rightarrow> str" where
  "lit s = map of_char s"

definition nl :: str where
  "nl = [10]"

text \<open>The decimal rendering of a non-negative integer inside an f-string.\<close>

fun str_nat :: "nat \<Rightarrow> str" where
  "str_nat n = (if n < 10 then [48 + n] else str_nat (n div 10) @ [48 + n mod 10])"

section \<open>The source adapter: \<open>RSSBot.get_feed_posts\<close>\<close>

text \<open>
  An entry of a parsed feed, as far as \<open>get_feed_posts\<close> reads it: for each key, what
  \<open>entry.get(key)\<close> finds (\<open>None\<close> when the key is absent).
\<close>

record entry =
  e_title :: "str option"
  e_link :: "str option"
  e_published :: "str option"
  e_summary :: "str option"
  e_description :: "str option"
  e_id :: "str option"

text \<open>\<open>feedparser.parse(feed_url)\<close> either raises or returns a feed with its entries.\<close>

datatype parsed = ParseRaises | Entries "entry list"

record post =
  title :: str
  link :: str
  published :: str
  summary :: str
  post_id :: str

definition get_default :: "'a option \<Rightarrow> 'a \<Rightarrow> 'a" where
  "get_default v dflt = (case v of Some x \<Rightarrow> x | None \<Rightarrow> dflt)"

definition post_of_entry :: "entry \<Rightarrow> post" where
  "post_of_entry e =
     \<lparr> title = get_default (e_title e) (lit ''No title''),
       link = get_default (e_link e) [],
       published = get_default (e_published e) [],
       summary = get_default (e_summary e) (get_default (e_description e) []),
       post_id = get_default (e_id e) (get_default (e_link e) []) \<rparr>"

text \<open>The \<open>except Exception\<close> branch logs and returns the empty list.\<close>

definition get_feed_posts :: "(str \<Rightarrow> parsed) \<Rightarrow> str \<Rightarrow> post list" where
  "get_feed_posts parse feed_url =
     (case parse feed_url of
        ParseRaises \<Rightarrow> []
      | Entries es \<Rightarrow> map post_of_entry es)"

section \<open>The tracking state and its file\<close>

text \<open>
  \<open>rss_bot.data\<close> is a dict with the keys \<open>feeds\<close>, \<open>seen_posts\<close> and \<open>chat_ids\<close>. The dict
  \<open>seen_posts\<close> keeps insertion order, so it is an association list:
  \<open>d[k] = v\<close> is \<open>AList.update k v d\<close> (an existing key keeps its place, a new key goes
  to the end), \<open>del d[k]\<close> is \<open>AList.delete k d\<close>, \<open>k in d\<close> is \<open>map_of d k \<noteq> None\<close>.
\<close>

type_synonym seen = "(str \<times> str list) list"

record data =
  feeds :: "str list"
  seen_posts :: seen
  chat_ids :: "int list"

definition default_feed :: str where
  "default_feed = lit ''https://status.aws.amazon.com/rss/multipleservices-us-east-1.rss''"

definition default_data :: data where
  "default_data = \<lparr> feeds = [default_feed], seen_posts = [], chat_ids = [] \<rparr>"

text \<open>
  The data file: absent, present but not parseable as JSON (an empty or half-written
  file), or holding the JSON document that \<open>json.dump\<close> wrote for a state. \<open>json.load\<close>
  of what \<open>json.dump\<close> wrote for strings, integers, lists and string-keyed dicts gives
  back an equal value; that contract of the \<open>json\<close> library is part of the model. A
  file holding JSON of another shape is outside the model.
\<close>

datatype data_file = Missing | Corrupt | Stored data

text \<open>What the operating system does with the file operations of one call.\<close>

datatype read_io = ReadOk | ReadFails

datatype write_io = WriteOk | OpenFails | DumpFails

definition load_data :: "read_io \<Rightarrow> data_file \<Rightarrow> data" where
  "load_data r f =
     (case f of
        Missing \<Rightarrow> default_data
      | Corrupt \<Rightarrow> default_data
      | Stored d \<Rightarrow> (case r of ReadOk \<Rightarrow> d | ReadFails \<Rightarrow> default_data))"

text \<open>
  \<open>open(DATA_FILE, 'w')\<close> truncates the file before \<open>json.dump\<close> writes: when the
  dump raises, a half-written file is left; when \<open>open\<close> raises, the file is untouched.
  Both exceptions are caught and logged.
\<close>

definition save_data :: "write_io \<Rightarrow> data \<Rightarrow> data_file \<Rightarrow> data_file" where
  "save_data w d f =
     (case w of
        WriteOk \<Rightarrow> Stored d
      | OpenFails \<Rightarrow> f
      | DumpFails \<Rightarrow> Corrupt)"

text \<open>The bot object \<open>rss_bot\<close> together with the file it persists to.\<close>

record bot =
  bot_data :: data
  disk :: data_file

definition init_bot :: "read_io \<Rightarrow> data_file \<Rightarrow> bot" where
  "init_bot r f = \<lparr> bot_data = load_data r f, disk = f \<rparr>"

definition save :: "write_io \<Rightarrow> bot \<Rightarrow> bot" where
  "save w b = b\<lparr> disk := save_data w (bot_data b) (disk b) \<rparr>"

section \<open>Notification text\<close>

definition icon_bell :: str where
  "icon_bell = [0xF0, 0x178, 0x201D, 0x201D]"

definition icon_title :: str where
  "icon_title = [0xF0, 0x178, 0x201C, 0xB0]"

definition icon_link :: str where
  "icon_link = [0xF0, 0x178, 0x201D, 0x2014]"

definition icon_date :: str where
  "icon_date = [0xF0, 0x178, 0x201C, 0x2026]"

text \<open>
  The message as it stands before the summary is looked at (lines 202-209 of
  \<open>check_feeds\<close>, and the same text at lines 283-290 of \<open>check_feeds_periodic\<close>).
\<close>

definition message_head :: "post \<Rightarrow> str" where
  "message_head p =
     (let message =
            icon_bell @ lit '' New Post Alert!'' @ nl @ nl
            @ icon_title @ lit '' '' @ title p @ nl @ nl
            @ icon_link @ lit '' '' @ link p @ nl @ nl
      in if published p \<noteq> []
         then message @ icon_date @ lit '' '' @ published p @ nl @ nl
         else message)"

definition format_message :: "post \<Rightarrow> str" where
  "format_message p =
     (let message = message_head p
      in if summary p \<noteq> []
         then (let summary0 = take 500 (summary p);
                   summary1 = (if length (summary p) > 500
                               then summary0 @ lit ''...'' else summary0)
               in message @ summary1)
         else message)"

section \<open>The seen-sets\<close>

text \<open>
  \<open>seen_of sp u\<close> reads \<open>seen_posts[u]\<close>. Every read in the source follows an
  assignment to that key in the same handler, so the \<open>KeyError\<close> of a missing key does
  not arise there (lemma \<open>map_of_init_seen\<close> below); the model reads the empty list.
\<close>

definition seen_of :: "seen \<Rightarrow> str \<Rightarrow> str list" where
  "seen_of sp u = (case map_of sp u of Some ids \<Rightarrow> ids | None \<Rightarrow> [])"

text \<open>\<open>seen_posts[u].append(i)\<close>\<close>

definition append_seen :: "seen \<Rightarrow> str \<Rightarrow> str \<Rightarrow> seen" where
  "append_seen sp u i = AList.update u (seen_of sp u @ [i]) sp"

text \<open>\<open>if u not in seen_posts: seen_posts[u] = []\<close>\<close>

definition init_seen :: "seen \<Rightarrow> str \<Rightarrow> seen" where
  "init_seen sp u = (if map_of sp u = None then AList.update u [] sp else sp)"

section \<open>The handlers\<close>

subsection \<open>\<open>start\<close>\<close>

definition welcome_message :: "nat \<Rightarrow> str" where
  "welcome_message n =
     lit ''Welcome to RSS Feed Monitor Bot!'' @ nl @ nl
     @ lit ''Available commands:'' @ nl
     @ lit ''/feeds - List all monitored RSS feeds'' @ nl
     @ lit ''/addfeed <url> - Add a new RSS feed'' @ nl
     @ lit ''/removefeed <url> - Remove an RSS feed'' @ nl
     @ lit ''/check - Manually check feeds for updates'' @ nl
     @ lit ''/list - Show last 10 posts from all feeds'' @ nl @ nl
     @ lit ''Currently monitoring '' @ str_nat n @ lit '' feed(s)''"

definition start :: "write_io \<Rightarrow> int \<Rightarrow> bot \<Rightarrow> bot \<times> str list" where
  "start w chat_id b =
     (let d = bot_data b;
          b1 = (if chat_id \<notin> set (chat_ids d)
                then save w (b\<lparr> bot_data := d\<lparr> chat_ids := chat_ids d @ [chat_id] \<rparr> \<rparr>)
                else b)
      in (b1, [welcome_message (length (feeds (bot_data b1)))]))"

subsection \<open>\<open>add_feed\<close>\<close>

text \<open>Lines 144-145: the feed joins the list and gets an empty seen-set.\<close>

definition register_feed :: "str \<Rightarrow> data \<Rightarrow> data" where
  "register_feed feed_url d =
     d\<lparr> feeds := feeds d @ [feed_url],
        seen_posts := AList.update feed_url [] (seen_posts d) \<rparr>"

text \<open>The body (lines 149-150) and the loop (line 148) that marks the fetched posts as seen.\<close>

definition add_feed_post :: "str \<Rightarrow> post \<Rightarrow> seen \<Rightarrow> seen" where
  "add_feed_post feed_url p sp =
     (if post_id p \<notin> set (seen_of sp feed_url)
      then append_seen sp feed_url (post_id p)
      else sp)"

fun add_feed_posts :: "str \<Rightarrow> post list \<Rightarrow> seen \<Rightarrow> seen" where
  "add_feed_posts feed_url [] sp = sp"
| "add_feed_posts feed_url (p # ps) sp = add_feed_posts feed_url ps (add_feed_post feed_url p sp)"

definition add_feed ::
  "(str \<Rightarrow> parsed) \<Rightarrow> write_io \<Rightarrow> str list \<Rightarrow> bot \<Rightarrow> bot \<times> str list" where
  "add_feed parse w args b =
     (case args of
        [] \<Rightarrow> (b, [lit ''Please provide a feed URL.'' @ nl @ lit ''Usage: /addfeed <url>''])
      | feed_url # _ \<Rightarrow>
          if feed_url \<in> set (feeds (bot_data b))
          then (b, [lit ''This feed is already being monitored.''])
          else
            (let posts = get_feed_posts parse feed_url
             in if posts = []
                then (b, [lit ''Validating RSS feed...'',
                          lit ''Could not fetch the RSS feed. Please check the URL and try again.''])
                else
                  (let d1 = register_feed feed_url (bot_data b);
                       d2 = d1\<lparr> seen_posts := add_feed_posts feed_url posts (seen_posts d1) \<rparr>
                   in (save w (b\<lparr> bot_data := d2 \<rparr>),
                       [lit ''Validating RSS feed...'',
                        lit ''Successfully added feed!'' @ nl
                        @ lit ''Found '' @ str_nat (length posts) @ lit '' existing posts.'' @ nl
                        @ lit ''You'' @ [39] @ lit ''ll be notified of new posts from now on.'']))))"

subsection \<open>\<open>remove_feed\<close>\<close>

text \<open>
  \<open>has_message\<close> is the truth value of \<open>update.message\<close>. \<open>list.remove\<close> deletes the first
  occurrence, which is \<open>remove1\<close>.
\<close>

definition remove_feed :: "write_io \<Rightarrow> bool \<Rightarrow> str list \<Rightarrow> bot \<Rightarrow> bot \<times> str list" where
  "remove_feed w has_message args b =
     (if \<not> has_message then (b, [])
      else
        (case args of
           [] \<Rightarrow> (b, [lit ''Please provide a feed URL.'' @ nl @ lit ''Usage: /removefeed <url>''])
         | feed_url # _ \<Rightarrow>
             if feed_url \<notin> set (feeds (bot_data b))
             then (b, [lit ''This feed is not being monitored.''])
             else
               (let d = bot_data b;
                    d1 = d\<lparr> feeds := remove1 feed_url (feeds d) \<rparr>;
                    d2 = (if map_of (seen_posts d1) feed_url \<noteq> None
                          then d1\<lparr> seen_posts := AList.delete feed_url (seen_posts d1) \<rparr>
                          else d1)
                in (save w (b\<lparr> bot_data := d2 \<rparr>),
                    [lit ''Removed feed: '' @ feed_url]))))"

subsection \<open>\<open>check_feeds\<close>\<close>

text \<open>
  The loops thread the dict \<open>seen_posts\<close>, the counter \<open>new_posts_found\<close> and the replies
  sent so far. Replying is the transport's business and is taken to succeed.
  \<open>check_feeds_post\<close> is the body of the inner loop (lines 196-218), \<open>check_feeds_posts\<close>
  the inner loop (line 195), \<open>check_feeds_loop\<close> the loop over the feeds (lines 188-193).
\<close>

type_synonym check_state = "seen \<times> nat \<times> str list"

fun check_feeds_post :: "str \<Rightarrow> post \<Rightarrow> check_state \<Rightarrow> check_state" where
  "check_feeds_post feed_url p (sp, n, out) =
     (if post_id p \<notin> set (seen_of sp feed_url)
      then (append_seen sp feed_url (post_id p), n + 1, out @ [format_message p])
      else (sp, n, out))"

fun check_feeds_posts :: "str \<Rightarrow> post list \<Rightarrow> check_state \<Rightarrow> check_state" where
  "check_feeds_posts feed_url [] s = s"
| "check_feeds_posts feed_url (p # ps) s =
     check_feeds_posts feed_url ps (check_feeds_post feed_url p s)"

fun check_feeds_loop :: "(str \<Rightarrow> parsed) \<Rightarrow> str list \<Rightarrow> check_state \<Rightarrow> check_state" where
  "check_feeds_loop parse [] s = s"
| "check_feeds_loop parse (feed_url # rest) (sp, n, out) =
     check_feeds_loop parse rest
       (check_feeds_posts feed_url (get_feed_posts parse feed_url)
          (init_seen sp feed_url, n, out))"

definition check_feeds :: "(str \<Rightarrow> parsed) \<Rightarrow> write_io \<Rightarrow> bot \<Rightarrow> bot \<times> str list" where
  "check_feeds parse w b =
     (let d = bot_data b;
          (sp, n, out) = check_feeds_loop parse (feeds d)
                           (seen_posts d, 0, [lit ''Checking feeds for updates...'']);
          b1 = save w (b\<lparr> bot_data := d\<lparr> seen_posts := sp \<rparr> \<rparr>)
      in (b1, out @ [if n = 0 then lit ''No new posts found.''
                     else lit ''Found '' @ str_nat n @ lit '' new post(s)!'']))"

subsection \<open>\<open>check_feeds_periodic\<close>\<close>

text \<open>
  A call of \<open>context.bot.send_message\<close> either delivers or raises; the exception is
  caught and logged, and the loop over the recipients goes on (lines 300-304).
\<close>

datatype delivery = Sent int str | SendFailed int str

definition send_all :: "(int \<Rightarrow> str \<Rightarrow> bool) \<Rightarrow> int list \<Rightarrow> str \<Rightarrow> delivery list" where
  "send_all send_ok cs message =
     map (\<lambda>chat_id. if send_ok chat_id message then Sent chat_id message
                     else SendFailed chat_id message) cs"

type_synonym periodic_state = "seen \<times> delivery list"

fun periodic_post ::
  "(int \<Rightarrow> str \<Rightarrow> bool) \<Rightarrow> int list \<Rightarrow> str \<Rightarrow> post \<Rightarrow> periodic_state \<Rightarrow> periodic_state" where
  "periodic_post send_ok cs feed_url p (sp, out) =
     (if post_id p \<notin> set (seen_of sp feed_url)
      then (append_seen sp feed_url (post_id p), out @ send_all send_ok cs (format_message p))
      else (sp, out))"

fun periodic_posts ::
  "(int \<Rightarrow> str \<Rightarrow> bool) \<Rightarrow> int list \<Rightarrow> str \<Rightarrow> post list \<Rightarrow> periodic_state \<Rightarrow> periodic_state" where
  "periodic_posts send_ok cs feed_url [] s = s"
| "periodic_posts send_ok cs feed_url (p # ps) s =
     periodic_posts send_ok cs feed_url ps (periodic_post send_ok cs feed_url p s)"

fun periodic_loop ::
  "(str \<Rightarrow> parsed) \<Rightarrow> (int \<Rightarrow> str \<Rightarrow> bool) \<Rightarrow> int list \<Rightarrow> str list \<Rightarrow> periodic_state
     \<Rightarrow> periodic_state" where
  "periodic_loop parse send_ok cs [] s = s"
| "periodic_loop parse send_ok cs (feed_url # rest) (sp, out) =
     periodic_loop parse send_ok cs rest
       (periodic_posts send_ok cs feed_url (get_feed_posts parse feed_url)
          (init_seen sp feed_url, out))"

definition check_feeds_periodic ::
  "(str \<Rightarrow> parsed) \<Rightarrow> (int \<Rightarrow> str \<Rightarrow> bool) \<Rightarrow> write_io \<Rightarrow> bot \<Rightarrow> bot \<times> delivery list" where
  "check_feeds_periodic parse send_ok w b =
     (let d = bot_data b;
          (sp, out) = periodic_loop parse send_ok (chat_ids d) (feeds d) (seen_posts d, [])
      in (save w (b\<lparr> bot_data := d\<lparr> seen_posts := sp \<rparr> \<rparr>), out))"

section \<open>Overlapping check cycles\<close>






section \<open>Reachable states\<close>

text \<open>
  The bot starts on a machine without a data file, and from then on the handlers run one
  after another, each to its end; the process may be restarted at any point and then
  loads what the file holds. \<open>list_feeds\<close> and \<open>list_posts\<close> write neither \<open>rss_bot.data\<close>
  nor the file and so are no steps.
\<close>

inductive reachable :: "bot \<Rightarrow> bool" where
  fresh: "reachable (init_bot r Missing)"
| restart: "reachable b \<Longrightarrow> reachable (init_bot r (disk b))"
| by_start: "reachable b \<Longrightarrow> reachable (fst (start w chat_id b))"
| by_add_feed: "reachable b \<Longrightarrow> reachable (fst (add_feed parse w args b))"
| by_remove_feed: "reachable b \<Longrightarrow> reachable (fst (remove_feed w has_message args b))"
| by_check_feeds: "reachable b \<Longrightarrow> reachable (fst (check_feeds parse w b))"
| by_check_feeds_periodic:
    "reachable b \<Longrightarrow> reachable (fst (check_feeds_periodic parse send_ok w b))"

text \<open>Properties of a tracking state, as executable checks.\<close>

definition dup_free :: "seen \<Rightarrow> bool" where
  "dup_free sp = list_all (\<lambda>(u, ids). distinct ids) sp"

definition no_orphans :: "data \<Rightarrow> bool" where
  "no_orphans d = list_all (\<lambda>(u, ids). u \<in> set (feeds d)) (seen_posts d)"


definition data_ok :: "data \<Rightarrow> bool" where
  "data_ok d \<longleftrightarrow>
     distinct (feeds d) \<and> distinct (map fst (seen_posts d)) \<and> no_orphans d
     \<and> dup_free (seen_posts d)"

definition file_ok :: "data_file \<Rightarrow> bool" where
  "file_ok f = (case f of Stored d \<Rightarrow> data_ok d | _ \<Rightarrow> True)"

section \<open>Auxiliary notions\<close>

text \<open>
  The three loops over the posts of a feed change the dict \<open>seen_posts\<close> in the same way,
  which is what \<open>add_feed_posts\<close> computes; \<open>seen_after_loop\<close> is the dict after a loop
  over the feeds. A feed is \<open>covered\<close> when it has a seen-set that holds every id of what
  its fetch returns.
\<close>

fun seen_after_loop :: "(str \<Rightarrow> parsed) \<Rightarrow> str list \<Rightarrow> seen \<Rightarrow> seen" where
  "seen_after_loop parse [] sp = sp"
| "seen_after_loop parse (u # fs) sp =
     seen_after_loop parse fs (add_feed_posts u (get_feed_posts parse u) (init_seen sp u))"

definition covered :: "(str \<Rightarrow> parsed) \<Rightarrow> seen \<Rightarrow> str \<Rightarrow> bool" where
  "covered parse sp u \<longleftrightarrow>
     map_of sp u \<noteq> None \<and> post_id ` set (get_feed_posts parse u) \<subseteq> set (seen_of sp u)"

text \<open>The parts of \<open>data_ok\<close> that concern the dict, for a set \<open>F\<close> of feeds.\<close>

definition seen_ok :: "str set \<Rightarrow> seen \<Rightarrow> bool" where
  "seen_ok F sp \<longleftrightarrow> distinct (map fst sp) \<and> fst ` set sp \<subseteq> F \<and> dup_free sp"

definition bot_ok :: "bot \<Rightarrow> bool" where
  "bot_ok b \<longleftrightarrow> data_ok (bot_data b) \<and> file_ok (disk b)"

text \<open>Two dicts that give the same seen-set for every feed.\<close>

definition same_seen :: "seen \<Rightarrow> seen \<Rightarrow> bool" where
  "same_seen sp sp' \<longleftrightarrow> (\<forall>v. seen_of sp v = seen_of sp' v)"

text \<open>The bot with a feed left out of the feed list.\<close>

definition without_feed :: "str \<Rightarrow> bot \<Rightarrow> bot" where
  "without_feed u b = b\<lparr> bot_data := (bot_data b)\<lparr> feeds := filter (\<lambda>v. v \<noteq> u) (feeds (bot_data b)) \<rparr> \<rparr>"



section \<open>Example data\<close>

definition long_post :: post where
  "long_post = \<lparr> title = lit ''Outage'', link = lit ''https://a.example/1'',
                  published = lit ''Mon, 01 Jan 2024'', summary = replicate 600 120,
                  post_id = lit ''id-1'' \<rparr>"

definition short_post :: post where
  "short_post = \<lparr> title = lit ''Resolved'', link = lit ''https://a.example/2'',
                   published = [], summary = replicate 500 121, post_id = lit ''id-2'' \<rparr>"

definition no_feed :: "str \<Rightarrow> parsed" where
  "no_feed u = (if u = lit ''https://empty.example/rss'' then Entries [] else ParseRaises)"

section \<open>Facts about the seen-sets\<close>

lemma seen_of_update:
  "seen_of (AList.update u ids sp) v = (if v = u then ids else seen_of sp v)"
  by (simp add: seen_of_def update_conv')

lemma seen_of_append_seen:
  "seen_of (append_seen sp u i) v = (if v = u then seen_of sp u @ [i] else seen_of sp v)"
  by (simp add: append_seen_def seen_of_update)

lemma seen_of_init_seen: "seen_of (init_seen sp u) v = seen_of sp v"
  by (simp add: init_seen_def seen_of_def update_conv')

lemma map_of_init_seen: "map_of (init_seen sp u) u \<noteq> None"
  by (simp add: init_seen_def update_conv')

lemma map_of_append_seen:
  "map_of (append_seen sp u i) v = (if v = u then Some (seen_of sp u @ [i]) else map_of sp v)"
  by (simp add: append_seen_def update_conv')

lemma map_of_init_seen_other:
  "map_of (init_seen sp u) v = (if v = u then Some (seen_of sp u) else map_of sp v)"
  by (auto simp add: init_seen_def update_conv' seen_of_def)

definition feed_a :: str where "feed_a = lit ''https://a.example/rss''"
definition feed_b :: str where "feed_b = lit ''https://b.example/rss''"
definition feed_c :: str where "feed_c = lit ''https://c.example/rss''"
definition feed_d :: str where "feed_d = lit ''https://d.example/rss''"

definition entry1 :: entry where
  "entry1 = \<lparr> e_title = Some (lit ''One''), e_link = Some (lit ''https://a.example/1''),
               e_published = None, e_summary = Some (lit ''first''), e_description = None,
               e_id = Some (lit ''id-1'') \<rparr>"

definition entry2 :: entry where
  "entry2 = \<lparr> e_title = Some (lit ''Two''), e_link = Some (lit ''https://a.example/2''),
               e_published = Some (lit ''Tue''), e_summary = None,
               e_description = Some (lit ''second''), e_id = Some (lit ''id-2'') \<rparr>"

definition entry3 :: entry where
  "entry3 = \<lparr> e_title = None, e_link = Some (lit ''https://c.example/3''),
               e_published = None, e_summary = None, e_description = None, e_id = None \<rparr>"

definition entry1b :: entry where
  "entry1b = \<lparr> e_title = Some (lit ''One, updated''), e_link = Some (lit ''https://a.example/1''),
                e_published = None, e_summary = None, e_description = None,
                e_id = Some (lit ''id-1'') \<rparr>"

definition ex_parse :: "str \<Rightarrow> parsed" where
  "ex_parse u =
     (if u = feed_a then Entries [entry1, entry2]
      else if u = feed_c then Entries [entry3]
      else if u = feed_d then Entries [entry1, entry1b]
      else ParseRaises)"

definition later_parse :: "str \<Rightarrow> parsed" where
  "later_parse u = (if u = feed_a then Entries [entry2] else ParseRaises)"

definition bot0 :: bot where
  "bot0 = init_bot ReadOk Missing"

definition bot1 :: bot where
  "bot1 = \<lparr> bot_data = \<lparr> feeds = [default_feed, feed_a],
                            seen_posts = [(feed_a, [lit ''id-1'', lit ''id-2''])],
                            chat_ids = [42] \<rparr>,
             disk = Missing \<rparr>"

definition bot3 :: bot where
  "bot3 = \<lparr> bot_data = \<lparr> feeds = [feed_a, feed_b, feed_c], seen_posts = [], chat_ids = [7] \<rparr>,
             disk = Missing \<rparr>"

section \<open>The loops and the seen-sets\<close>

text \<open>The definitions that evaluate the examples.\<close>

lemmas ex_defs = feed_a_def feed_b_def feed_c_def feed_d_def entry1_def entry2_def entry3_def
  entry1b_def ex_parse_def later_parse_def bot0_def bot1_def bot3_def

lemmas eval_defs = lit_def get_feed_posts_def post_of_entry_def get_default_def seen_of_def
  append_seen_def init_seen_def add_feed_post_def register_feed_def save_def save_data_def
  init_bot_def load_data_def default_data_def default_feed_def

lemma fst_check_feeds_posts:
  "fst (check_feeds_posts u ps (sp, n, out)) = add_feed_posts u ps sp"
  by (induction ps arbitrary: sp n out) (simp_all add: add_feed_post_def)

lemma fst_periodic_posts:
  "fst (periodic_posts so cs u ps (sp, out)) = add_feed_posts u ps sp"
  by (induction ps arbitrary: sp out) (simp_all add: add_feed_post_def)

lemma fst_check_feeds_loop:
  "fst (check_feeds_loop parse fs (sp, n, out)) = seen_after_loop parse fs sp"
proof (induction fs arbitrary: sp n out)
  case Nil show ?case by simp
next
  case (Cons u fs)
  obtain sp' n' out' where e: "check_feeds_posts u (get_feed_posts parse u) (init_seen sp u, n, out) = (sp', n', out')"
    by (cases "check_feeds_posts u (get_feed_posts parse u) (init_seen sp u, n, out)")
  have "sp' = add_feed_posts u (get_feed_posts parse u) (init_seen sp u)"
    using fst_check_feeds_posts [of u "get_feed_posts parse u" "init_seen sp u" n out] e by simp
  then show ?case using Cons e by simp
qed

lemma fst_periodic_loop:
  "fst (periodic_loop parse so cs fs (sp, out)) = seen_after_loop parse fs sp"
proof (induction fs arbitrary: sp out)
  case Nil show ?case by simp
next
  case (Cons u fs)
  obtain sp' out' where e: "periodic_posts so cs u (get_feed_posts parse u) (init_seen sp u, out) = (sp', out')"
    by (cases "periodic_posts so cs u (get_feed_posts parse u) (init_seen sp u, out)")
  have "sp' = add_feed_posts u (get_feed_posts parse u) (init_seen sp u)"
    using fst_periodic_posts [of so cs u "get_feed_posts parse u" "init_seen sp u" out] e by simp
  then show ?case using Cons e by simp
qed

lemma seen_of_add_feed_post:
  "seen_of (add_feed_post u p sp) v =
     (if v = u \<and> post_id p \<notin> set (seen_of sp u) then seen_of sp u @ [post_id p] else seen_of sp v)"
  by (simp add: add_feed_post_def seen_of_append_seen)

lemma seen_of_add_feed_posts_other:
  "v \<noteq> u \<Longrightarrow> seen_of (add_feed_posts u ps sp) v = seen_of sp v"
  by (induction ps arbitrary: sp) (simp_all add: seen_of_add_feed_post)

lemma set_seen_of_add_feed_posts:
  "set (seen_of (add_feed_posts u ps sp) u) = set (seen_of sp u) \<union> post_id ` set ps"
  by (induction ps arbitrary: sp) (auto simp add: seen_of_add_feed_post)

lemma distinct_seen_of_add_feed_posts:
  "distinct (seen_of sp u) \<Longrightarrow> distinct (seen_of (add_feed_posts u ps sp) u)"
  by (induction ps arbitrary: sp) (simp_all add: seen_of_add_feed_post)

lemma add_feed_posts_stable:
  "post_id ` set ps \<subseteq> set (seen_of sp u) \<Longrightarrow> add_feed_posts u ps sp = sp"
  by (induction ps arbitrary: sp) (simp_all add: add_feed_post_def)

lemma check_feeds_posts_stable:
  "post_id ` set ps \<subseteq> set (seen_of sp u) \<Longrightarrow> check_feeds_posts u ps (sp, n, out) = (sp, n, out)"
  by (induction ps arbitrary: sp) simp_all

lemma periodic_posts_stable:
  "post_id ` set ps \<subseteq> set (seen_of sp u) \<Longrightarrow> periodic_posts so cs u ps (sp, out) = (sp, out)"
  by (induction ps arbitrary: sp) simp_all

lemma map_of_add_feed_post:
  "map_of (add_feed_post u p sp) v =
     (if v = u \<and> post_id p \<notin> set (seen_of sp u) then Some (seen_of sp u @ [post_id p]) else map_of sp v)"
  by (simp add: add_feed_post_def map_of_append_seen)

lemma map_of_add_feed_posts_other:
  "v \<noteq> u \<Longrightarrow> map_of (add_feed_posts u ps sp) v = map_of sp v"
  by (induction ps arbitrary: sp) (simp_all add: map_of_add_feed_post)

lemma map_of_add_feed_posts_Some:
  "map_of sp v \<noteq> None \<Longrightarrow> map_of (add_feed_posts u ps sp) v \<noteq> None"
  by (induction ps arbitrary: sp) (simp_all add: map_of_add_feed_post)

lemma init_seen_stable: "map_of sp u \<noteq> None \<Longrightarrow> init_seen sp u = sp"
  by (auto simp add: init_seen_def)

lemma seen_after_loop_append:
  "seen_after_loop parse (xs @ ys) sp = seen_after_loop parse ys (seen_after_loop parse xs sp)"
  by (induction xs arbitrary: sp) simp_all

lemma map_of_step_Some:
  "map_of sp v \<noteq> None \<Longrightarrow>
   map_of (add_feed_posts u ps (init_seen sp u)) v \<noteq> None"
  by (rule map_of_add_feed_posts_Some) (simp add: map_of_init_seen_other)

lemma set_seen_of_step:
  "set (seen_of sp v) \<subseteq> set (seen_of (add_feed_posts u ps (init_seen sp u)) v)"
  by (cases "v = u")
     (simp_all add: set_seen_of_add_feed_posts seen_of_add_feed_posts_other seen_of_init_seen)

lemma covered_step_mono:
  "covered parse sp v \<Longrightarrow> covered parse (add_feed_posts u ps (init_seen sp u)) v"
  unfolding covered_def using map_of_step_Some [of sp v u ps] set_seen_of_step [of sp v u ps]
  by blast

lemma covered_step:
  "covered parse (add_feed_posts u (get_feed_posts parse u) (init_seen sp u)) u"
  unfolding covered_def
  by (simp add: set_seen_of_add_feed_posts map_of_add_feed_posts_Some map_of_init_seen)

lemma covered_loop_mono:
  "covered parse sp v \<Longrightarrow> covered parse (seen_after_loop parse fs sp) v"
  by (induction fs arbitrary: sp) (simp_all add: covered_step_mono)

lemma covered_after_loop:
  "u \<in> set fs \<Longrightarrow> covered parse (seen_after_loop parse fs sp) u"
proof (induction fs arbitrary: sp)
  case Nil then show ?case by simp
next
  case (Cons a fs)
  show ?case
  proof (cases "u = a")
    case True
    then show ?thesis using covered_loop_mono [OF covered_step, of parse fs a sp] by simp
  next
    case False
    then show ?thesis using Cons by simp
  qed
qed

lemma check_feeds_loop_stable:
  "(\<And>u. u \<in> set fs \<Longrightarrow> covered parse sp u) \<Longrightarrow>
   check_feeds_loop parse fs (sp, n, out) = (sp, n, out)"
proof (induction fs)
  case Nil show ?case by simp
next
  case (Cons a fs)
  have c: "covered parse sp a" using Cons.prems by simp
  then have "init_seen sp a = sp" by (simp add: covered_def init_seen_stable)
  moreover have "check_feeds_posts a (get_feed_posts parse a) (sp, n, out) = (sp, n, out)"
    using c by (simp add: covered_def check_feeds_posts_stable)
  ultimately show ?case using Cons by simp
qed

lemma periodic_loop_stable:
  "(\<And>u. u \<in> set fs \<Longrightarrow> covered parse sp u) \<Longrightarrow>
   periodic_loop parse so cs fs (sp, out) = (sp, out)"
proof (induction fs)
  case Nil show ?case by simp
next
  case (Cons a fs)
  have c: "covered parse sp a" using Cons.prems by simp
  then have "init_seen sp a = sp" by (simp add: covered_def init_seen_stable)
  moreover have "periodic_posts so cs a (get_feed_posts parse a) (sp, out) = (sp, out)"
    using c by (simp add: covered_def periodic_posts_stable)
  ultimately show ?case using Cons by simp
qed

lemma check_feeds_posts_twice:
  "check_feeds_posts u ps (check_feeds_posts u ps s) = check_feeds_posts u ps s"
proof -
  obtain sp n out where s: "s = (sp, n, out)" by (cases s)
  obtain sp' n' out' where e: "check_feeds_posts u ps (sp, n, out) = (sp', n', out')"
    by (cases "check_feeds_posts u ps (sp, n, out)")
  have "sp' = add_feed_posts u ps sp"
    using fst_check_feeds_posts [of u ps sp n out] e by simp
  then have "post_id ` set ps \<subseteq> set (seen_of sp' u)"
    by (simp add: set_seen_of_add_feed_posts)
  then show ?thesis using s e by (simp add: check_feeds_posts_stable)
qed

lemma periodic_posts_after:
  "fst s' = add_feed_posts u ps sp \<Longrightarrow> periodic_posts so cs u ps s' = s'"
  by (cases s') (simp add: periodic_posts_stable set_seen_of_add_feed_posts)

lemma check_feeds_posts_after:
  "fst s' = add_feed_posts u ps sp \<Longrightarrow> check_feeds_posts u ps s' = s'"
  by (cases s') (simp add: check_feeds_posts_stable set_seen_of_add_feed_posts)

lemma check_feeds_loop_after:
  "fst s' = seen_after_loop parse fs sp \<Longrightarrow> check_feeds_loop parse fs s' = s'"
  by (cases s') (simp add: check_feeds_loop_stable covered_after_loop)

lemma periodic_loop_after:
  "fst s' = seen_after_loop parse fs sp \<Longrightarrow> periodic_loop parse so cs fs s' = s'"
  by (cases s') (simp add: periodic_loop_stable covered_after_loop)

lemma bot_data_save: "bot_data (save w b) = bot_data b"
  by (simp add: save_def)

lemma seen_posts_check_feeds:
  "seen_posts (bot_data (fst (check_feeds parse w b))) =
     seen_after_loop parse (feeds (bot_data b)) (seen_posts (bot_data b))"
  using fst_check_feeds_loop [of parse "feeds (bot_data b)" "seen_posts (bot_data b)" 0
      "[lit ''Checking feeds for updates...'']"]
  by (auto simp add: check_feeds_def Let_def bot_data_save split: prod.splits)

lemma seen_posts_check_feeds_periodic:
  "seen_posts (bot_data (fst (check_feeds_periodic parse so w b))) =
     seen_after_loop parse (feeds (bot_data b)) (seen_posts (bot_data b))"
  using fst_periodic_loop [of parse so "chat_ids (bot_data b)" "feeds (bot_data b)" "seen_posts (bot_data b)" "[]"]
  by (auto simp add: check_feeds_periodic_def Let_def bot_data_save split: prod.splits)

lemma feeds_check_feeds: "feeds (bot_data (fst (check_feeds parse w b))) = feeds (bot_data b)"
  by (simp add: check_feeds_def Let_def bot_data_save split: prod.splits)

lemma feeds_check_feeds_periodic:
  "feeds (bot_data (fst (check_feeds_periodic parse so w b))) = feeds (bot_data b)"
  by (simp add: check_feeds_periodic_def Let_def bot_data_save split: prod.splits)

lemma check_feeds_quiet:
  assumes "seen_posts (bot_data b) = seen_after_loop parse (feeds (bot_data b)) sp0"
  shows "check_feeds parse w b =
     (save w b, [lit ''Checking feeds for updates...'', lit ''No new posts found.''])"
proof -
  have "check_feeds_loop parse (feeds (bot_data b))
          (seen_posts (bot_data b), 0, [lit ''Checking feeds for updates...''])
        = (seen_posts (bot_data b), 0, [lit ''Checking feeds for updates...''])"
    using assms by (simp add: check_feeds_loop_after)
  then show ?thesis by (simp add: check_feeds_def)
qed

lemma check_feeds_periodic_quiet:
  assumes "seen_posts (bot_data b) = seen_after_loop parse (feeds (bot_data b)) sp0"
  shows "check_feeds_periodic parse so w b = (save w b, [])"
proof -
  have "periodic_loop parse so (chat_ids (bot_data b)) (feeds (bot_data b)) (seen_posts (bot_data b), [])
        = (seen_posts (bot_data b), [])"
    using assms by (simp add: periodic_loop_after)
  then show ?thesis by (simp add: check_feeds_periodic_def)
qed

section \<open>The state invariant\<close>

lemma dup_free_iff: "dup_free sp \<longleftrightarrow> (\<forall>(u, ids) \<in> set sp. distinct ids)"
  by (simp add: dup_free_def list_all_iff)

lemma no_orphans_iff: "no_orphans d \<longleftrightarrow> fst ` set (seen_posts d) \<subseteq> set (feeds d)"
  by (auto simp add: no_orphans_def list_all_iff)

lemma set_update_subset: "set (AList.update k v al) \<subseteq> insert (k, v) (set al)"
  by (induction al) auto

lemma set_delete_subset: "set (AList.delete k al) \<subseteq> set al"
  by (induction al) auto

lemma dup_free_seen_of: "dup_free sp \<Longrightarrow> distinct (seen_of sp u)"
  by (auto simp add: dup_free_iff seen_of_def split: option.splits dest: map_of_SomeD)

lemma dup_free_update: "dup_free sp \<Longrightarrow> distinct ids \<Longrightarrow> dup_free (AList.update u ids sp)"
  using set_update_subset [of u ids sp] by (auto simp add: dup_free_iff)

lemma dup_free_delete: "dup_free sp \<Longrightarrow> dup_free (AList.delete u sp)"
  using set_delete_subset [of u sp] by (auto simp add: dup_free_iff)

lemma data_ok_iff: "data_ok d \<longleftrightarrow> distinct (feeds d) \<and> seen_ok (set (feeds d)) (seen_posts d)"
  by (auto simp add: data_ok_def seen_ok_def no_orphans_iff)

lemma seen_ok_update:
  "seen_ok F sp \<Longrightarrow> u \<in> F \<Longrightarrow> distinct ids \<Longrightarrow> seen_ok F (AList.update u ids sp)"
  by (simp add: seen_ok_def distinct_update dom_update dup_free_update)

lemma seen_ok_init_seen: "seen_ok F sp \<Longrightarrow> u \<in> F \<Longrightarrow> seen_ok F (init_seen sp u)"
  by (simp add: init_seen_def seen_ok_update)

lemma seen_ok_add_feed_post: "seen_ok F sp \<Longrightarrow> u \<in> F \<Longrightarrow> seen_ok F (add_feed_post u p sp)"
proof -
  assume ok: "seen_ok F sp" and u: "u \<in> F"
  show ?thesis
  proof (cases "post_id p \<in> set (seen_of sp u)")
    case True then show ?thesis using ok by (simp add: add_feed_post_def)
  next
    case False
    have "distinct (seen_of sp u)" using ok by (simp add: seen_ok_def dup_free_seen_of)
    then have "distinct (seen_of sp u @ [post_id p])" using False by simp
    from seen_ok_update [OF ok u this] False show ?thesis
      by (simp add: add_feed_post_def append_seen_def)
  qed
qed

lemma seen_ok_add_feed_posts: "seen_ok F sp \<Longrightarrow> u \<in> F \<Longrightarrow> seen_ok F (add_feed_posts u ps sp)"
  by (induction ps arbitrary: sp) (simp_all add: seen_ok_add_feed_post)

lemma seen_ok_seen_after_loop:
  "seen_ok F sp \<Longrightarrow> set fs \<subseteq> F \<Longrightarrow> seen_ok F (seen_after_loop parse fs sp)"
  by (induction fs arbitrary: sp) (simp_all add: seen_ok_add_feed_posts seen_ok_init_seen)

lemma seen_ok_mono: "seen_ok F sp \<Longrightarrow> F \<subseteq> G \<Longrightarrow> seen_ok G sp"
  by (auto simp add: seen_ok_def)

lemma seen_ok_delete:
  "seen_ok F sp \<Longrightarrow> seen_ok (F - {u}) (AList.delete u sp)"
  using dom_delete_subset [of u sp] delete_notin_dom [of u sp]
  by (auto simp add: seen_ok_def distinct_delete dup_free_delete)

lemma data_ok_default: "data_ok default_data"
  by (simp add: data_ok_def default_data_def no_orphans_def dup_free_def)

lemma data_ok_load_data: "file_ok f \<Longrightarrow> data_ok (load_data r f)"
  by (cases f; cases r) (simp_all add: load_data_def file_ok_def data_ok_default)

lemma file_ok_save_data: "data_ok d \<Longrightarrow> file_ok f \<Longrightarrow> file_ok (save_data w d f)"
  by (cases w) (simp_all add: save_data_def file_ok_def)

lemma bot_ok_save: "bot_ok b \<Longrightarrow> bot_ok (save w b)"
  by (simp add: bot_ok_def save_def file_ok_save_data)

lemma bot_ok_update:
  "file_ok (disk b) \<Longrightarrow> data_ok d \<Longrightarrow> bot_ok (save w (b\<lparr> bot_data := d \<rparr>))"
  by (rule bot_ok_save) (simp add: bot_ok_def)

lemma bot_ok_init_bot: "file_ok f \<Longrightarrow> bot_ok (init_bot r f)"
  by (simp add: bot_ok_def init_bot_def data_ok_load_data)

lemma data_ok_chat_ids: "data_ok d \<Longrightarrow> data_ok (d\<lparr> chat_ids := cs \<rparr>)"
  by (simp add: data_ok_def no_orphans_def)

lemma bot_ok_start: "bot_ok b \<Longrightarrow> bot_ok (fst (start w c b))"
proof -
  assume ok: "bot_ok b"
  have "bot_ok (save w (b\<lparr> bot_data := (bot_data b)\<lparr> chat_ids := chat_ids (bot_data b) @ [c] \<rparr> \<rparr>))"
    using ok by (intro bot_ok_update data_ok_chat_ids) (simp_all add: bot_ok_def)
  then show ?thesis using ok by (simp add: start_def Let_def)
qed

lemma data_ok_register_feed:
  "data_ok d \<Longrightarrow> u \<notin> set (feeds d) \<Longrightarrow> data_ok (register_feed u d)"
proof -
  assume ok: "data_ok d" and u: "u \<notin> set (feeds d)"
  have "seen_ok (insert u (set (feeds d))) (seen_posts d)"
    using ok by (auto simp add: data_ok_iff intro: seen_ok_mono)
  then have "seen_ok (insert u (set (feeds d))) (AList.update u [] (seen_posts d))"
    by (rule seen_ok_update) simp_all
  then show ?thesis using ok u by (simp add: data_ok_iff register_feed_def)
qed

lemma data_ok_seen_step:
  "data_ok d \<Longrightarrow> u \<in> set (feeds d) \<Longrightarrow>
   data_ok (d\<lparr> seen_posts := add_feed_posts u ps (seen_posts d) \<rparr>)"
  by (simp add: data_ok_iff seen_ok_add_feed_posts)

lemma data_ok_seen_after_loop:
  "data_ok d \<Longrightarrow> data_ok (d\<lparr> seen_posts := seen_after_loop parse (feeds d) (seen_posts d) \<rparr>)"
  by (simp add: data_ok_iff seen_ok_seen_after_loop)

lemma bot_ok_add_feed: "bot_ok b \<Longrightarrow> bot_ok (fst (add_feed parse w args b))"
proof (cases args)
  case Nil then show "bot_ok b \<Longrightarrow> ?thesis" by (simp add: add_feed_def)
next
  case (Cons u rest)
  assume ok: "bot_ok b"
  show ?thesis
  proof (cases "u \<in> set (feeds (bot_data b)) \<or> get_feed_posts parse u = []")
    case True then show ?thesis using ok Cons by (auto simp add: add_feed_def)
  next
    case False
    then have r: "data_ok (register_feed u (bot_data b))"
      using ok by (simp add: bot_ok_def data_ok_register_feed)
    have "u \<in> set (feeds (register_feed u (bot_data b)))" by (simp add: register_feed_def)
    from data_ok_seen_step [OF r this]
    have "bot_ok (save w (b\<lparr> bot_data := (register_feed u (bot_data b))\<lparr> seen_posts :=
        add_feed_posts u (get_feed_posts parse u) (seen_posts (register_feed u (bot_data b))) \<rparr> \<rparr>))"
      using ok by (intro bot_ok_update) (simp_all add: bot_ok_def)
    then show ?thesis using False Cons by (simp add: add_feed_def Let_def)
  qed
qed

lemma data_ok_remove:
  assumes "data_ok d"
  shows "data_ok (d\<lparr> feeds := remove1 u (feeds d), seen_posts := AList.delete u (seen_posts d) \<rparr>)"
proof -
  have "set (remove1 u (feeds d)) = set (feeds d) - {u}"
    using assms by (simp add: data_ok_iff)
  then show ?thesis using assms seen_ok_delete [of "set (feeds d)" "seen_posts d" u]
    by (simp add: data_ok_iff)
qed

lemma delete_absent: "map_of sp u = None \<Longrightarrow> AList.delete u sp = sp"
  by (simp add: map_of_eq_None_iff)

lemma bot_ok_remove_feed: "bot_ok b \<Longrightarrow> bot_ok (fst (remove_feed w m args b))"
proof (cases args)
  case Nil then show "bot_ok b \<Longrightarrow> ?thesis" by (simp add: remove_feed_def)
next
  case (Cons u rest)
  assume ok: "bot_ok b"
  let ?d = "bot_data b"
  have e: "(if map_of (seen_posts ?d) u \<noteq> None
            then ?d\<lparr> feeds := remove1 u (feeds ?d), seen_posts := AList.delete u (seen_posts ?d) \<rparr>
            else ?d\<lparr> feeds := remove1 u (feeds ?d) \<rparr>)
           = ?d\<lparr> feeds := remove1 u (feeds ?d), seen_posts := AList.delete u (seen_posts ?d) \<rparr>"
    by (simp add: delete_absent)
  have "bot_ok (save w (b\<lparr> bot_data := ?d\<lparr> feeds := remove1 u (feeds ?d),
          seen_posts := AList.delete u (seen_posts ?d) \<rparr> \<rparr>))"
    using ok data_ok_remove [of ?d u] by (intro bot_ok_update) (simp_all add: bot_ok_def)
  then show ?thesis using ok Cons e
    by (cases "map_of (seen_posts ?d) u = None") (simp_all add: remove_feed_def Let_def delete_absent)
qed

lemma check_feeds_fst:
  "fst (check_feeds parse w b) =
     save w (b\<lparr> bot_data := (bot_data b)\<lparr> seen_posts :=
        seen_after_loop parse (feeds (bot_data b)) (seen_posts (bot_data b)) \<rparr> \<rparr>)"
  using fst_check_feeds_loop [of parse "feeds (bot_data b)" "seen_posts (bot_data b)" 0
      "[lit ''Checking feeds for updates...'']"]
  by (auto simp add: check_feeds_def Let_def split: prod.splits)

lemma check_feeds_periodic_fst:
  "fst (check_feeds_periodic parse so w b) =
     save w (b\<lparr> bot_data := (bot_data b)\<lparr> seen_posts :=
        seen_after_loop parse (feeds (bot_data b)) (seen_posts (bot_data b)) \<rparr> \<rparr>)"
  using fst_periodic_loop [of parse so "chat_ids (bot_data b)" "feeds (bot_data b)" "seen_posts (bot_data b)" "[]"]
  by (auto simp add: check_feeds_periodic_def Let_def split: prod.splits)

lemma bot_ok_check_feeds: "bot_ok b \<Longrightarrow> bot_ok (fst (check_feeds parse w b))"
  unfolding check_feeds_fst
  by (intro bot_ok_update data_ok_seen_after_loop) (simp_all add: bot_ok_def)

lemma bot_ok_check_feeds_periodic:
  "bot_ok b \<Longrightarrow> bot_ok (fst (check_feeds_periodic parse so w b))"
  unfolding check_feeds_periodic_fst
  by (intro bot_ok_update data_ok_seen_after_loop) (simp_all add: bot_ok_def)

lemma reachable_bot_ok: "reachable b \<Longrightarrow> bot_ok b"
proof (induction rule: reachable.induct)
  case (fresh r) show ?case by (simp add: bot_ok_init_bot file_ok_def)
next
  case (restart b r) then show ?case by (intro bot_ok_init_bot) (simp add: bot_ok_def)
next
  case by_start then show ?case by (simp add: bot_ok_start)
next
  case by_add_feed then show ?case by (simp add: bot_ok_add_feed)
next
  case by_remove_feed then show ?case by (simp add: bot_ok_remove_feed)
next
  case by_check_feeds then show ?case by (simp add: bot_ok_check_feeds)
next
  case by_check_feeds_periodic then show ?case by (simp add: bot_ok_check_feeds_periodic)
qed

section \<open>Summary truncation\<close>

text \<open>
  C5. A summary longer than 500 characters appears in the notification as its first 500
  characters followed by the marker \<open>...\<close>, right after the head of the message; a
  summary of 500 characters or fewer appears whole, with nothing after it.
\<close>

theorem summary_truncation:
  "(500 < length (summary p) \<longrightarrow>
      format_message p = message_head p @ take 500 (summary p) @ lit ''...'')
   \<and> (length (summary p) \<le> 500 \<longrightarrow> format_message p = message_head p @ summary p)"
  by (auto simp add: format_message_def Let_def)

theorem summary_truncation_witness:
  "format_message long_post = message_head long_post @ replicate 500 120 @ [46, 46, 46]
   \<and> format_message short_post = message_head short_post @ replicate 500 121"
  using summary_truncation [of long_post] summary_truncation [of short_post]
  by (simp add: long_post_def short_post_def lit_def)

section \<open>Persistence\<close>

text \<open>
  C6. Saving a tracking state and loading it back gives the same state, in each of its
  three fields, whatever the state is (empty seen-sets and an empty recipient list
  included), when the file is written and read without an I/O error.
\<close>

theorem save_load_round_trip:
  "load_data ReadOk (save_data WriteOk d f) = d
   \<and> feeds (load_data ReadOk (save_data WriteOk d f)) = feeds d
   \<and> seen_posts (load_data ReadOk (save_data WriteOk d f)) = seen_posts d
   \<and> chat_ids (load_data ReadOk (save_data WriteOk d f)) = chat_ids d
   \<and> bot_data (init_bot ReadOk (disk (save WriteOk b))) = bot_data b"
  by (simp add: load_data_def save_data_def save_def init_bot_def)

text \<open>The fail-soft branches: a failed write or read leaves the default or the old state.\<close>

lemma load_after_failed_dump: "load_data r (save_data DumpFails d f) = default_data"
  by (simp add: load_data_def save_data_def)

lemma load_after_failed_open: "load_data r (save_data OpenFails d f) = load_data r f"
  by (simp add: save_data_def)

section \<open>Adding a feed that cannot be fetched\<close>

text \<open>
  C8. When the validation fetch of a URL yields no items, \<open>add_feed\<close> leaves the bot as
  it was: the feed list, the seen-sets, the recipients and the data file are unchanged,
  and the caller is told that the feed could not be fetched.
\<close>

theorem add_feed_failure:
  assumes "get_feed_posts parse feed_url = []"
  shows "fst (add_feed parse w (feed_url # rest) b) = b
    \<and> (feed_url \<notin> set (feeds (bot_data b)) \<longrightarrow>
         snd (add_feed parse w (feed_url # rest) b) =
           [lit ''Validating RSS feed...'',
            lit ''Could not fetch the RSS feed. Please check the URL and try again.''])"
  using assms by (simp add: add_feed_def)

theorem add_feed_failure_witness:
  "get_feed_posts no_feed (lit ''https://down.example/rss'') = []
   \<and> add_feed no_feed WriteOk [lit ''https://down.example/rss''] (init_bot ReadOk Missing) =
       (init_bot ReadOk Missing,
        [lit ''Validating RSS feed...'',
         lit ''Could not fetch the RSS feed. Please check the URL and try again.''])"
proof -
  have h: "get_feed_posts no_feed (lit ''https://down.example/rss'') = []"
    by (simp add: get_feed_posts_def no_feed_def lit_def)
  have n: "lit ''https://down.example/rss'' \<notin> set (feeds (bot_data (init_bot ReadOk Missing)))"
    by (simp add: init_bot_def load_data_def default_data_def default_feed_def lit_def)
  from add_feed_failure [OF h, of WriteOk "[]" "init_bot ReadOk Missing"] n h
  show ?thesis by (simp add: prod_eq_iff)
qed

section \<open>Idempotent dedup\<close>

text \<open>
  C1. Running the dedup loop of a check a second time, on the seen-set the first run
  left, finds no new post: the second run changes neither the seen-set nor the counter
  and sends nothing. This holds for the loop over the posts of one feed (manual and
  periodic) and for a whole check cycle run after a check cycle (manual or periodic, in
  any combination) when the feeds return the same items: the second cycle replies only
  that no new posts were found, or delivers nothing, and leaves the tracking state as
  it is.
\<close>

theorem dedup_idempotent:
  "check_feeds_posts u ps (check_feeds_posts u ps s) = check_feeds_posts u ps s
   \<and> periodic_posts so cs u ps (periodic_posts so' cs' u ps t) = periodic_posts so' cs' u ps t
   \<and> check_feeds parse w' (fst (check_feeds parse w b)) =
       (save w' (fst (check_feeds parse w b)),
        [lit ''Checking feeds for updates...'', lit ''No new posts found.''])
   \<and> check_feeds_periodic parse so w' (fst (check_feeds_periodic parse so' w b)) =
       (save w' (fst (check_feeds_periodic parse so' w b)), [])
   \<and> check_feeds_periodic parse so w' (fst (check_feeds parse w b)) =
       (save w' (fst (check_feeds parse w b)), [])
   \<and> check_feeds parse w' (fst (check_feeds_periodic parse so' w b)) =
       (save w' (fst (check_feeds_periodic parse so' w b)),
        [lit ''Checking feeds for updates...'', lit ''No new posts found.''])"
proof -
  have a: "check_feeds_posts u ps (check_feeds_posts u ps s) = check_feeds_posts u ps s"
    by (rule check_feeds_posts_twice)
  have b: "periodic_posts so cs u ps (periodic_posts so' cs' u ps t) = periodic_posts so' cs' u ps t"
  proof -
    obtain sp out where t: "t = (sp, out)" by (cases t)
    show ?thesis unfolding t by (rule periodic_posts_after) (rule fst_periodic_posts)
  qed
  have m: "seen_posts (bot_data (fst (check_feeds parse w b))) =
        seen_after_loop parse (feeds (bot_data (fst (check_feeds parse w b)))) (seen_posts (bot_data b))"
    by (simp add: seen_posts_check_feeds feeds_check_feeds)
  have p: "seen_posts (bot_data (fst (check_feeds_periodic parse so' w b))) =
        seen_after_loop parse (feeds (bot_data (fst (check_feeds_periodic parse so' w b)))) (seen_posts (bot_data b))"
    by (simp add: seen_posts_check_feeds_periodic feeds_check_feeds_periodic)
  show ?thesis
    using a b check_feeds_quiet [OF m] check_feeds_periodic_quiet [OF p]
      check_feeds_periodic_quiet [OF m] check_feeds_quiet [OF p]
    by blast
qed

section \<open>Duplicate-free seen-sets\<close>

lemma dup_free_add_feed_post: "dup_free sp \<Longrightarrow> dup_free (add_feed_post u p sp)"
  by (simp add: add_feed_post_def append_seen_def dup_free_update dup_free_seen_of)

lemma dup_free_add_feed_posts: "dup_free sp \<Longrightarrow> dup_free (add_feed_posts u ps sp)"
  by (induction ps arbitrary: sp) (simp_all add: dup_free_add_feed_post)

lemma dup_free_init_seen: "dup_free sp \<Longrightarrow> dup_free (init_seen sp u)"
  by (simp add: init_seen_def dup_free_update)

lemma dup_free_seen_after_loop: "dup_free sp \<Longrightarrow> dup_free (seen_after_loop parse fs sp)"
  by (induction fs arbitrary: sp) (simp_all add: dup_free_add_feed_posts dup_free_init_seen)

lemma dup_free_map_of: "dup_free sp \<Longrightarrow> map_of sp u = Some ids \<Longrightarrow> distinct ids"
  by (auto simp add: dup_free_iff dest: map_of_SomeD)

text \<open>
  C10. No seen-set ever holds an id twice: the pre-seeding loop of \<open>add_feed\<close> and the
  loops of \<open>check_feeds\<close> and \<open>check_feeds_periodic\<close> append an id only after the
  membership test, so they keep duplicate-free seen-sets duplicate-free; hence every
  seen-set of a reachable state, in memory and in the data file, is duplicate-free.
\<close>

theorem seen_sets_duplicate_free:
  "(dup_free sp \<longrightarrow> dup_free (add_feed_posts u ps (AList.update u [] sp)))
   \<and> (dup_free sp \<longrightarrow> dup_free (fst (check_feeds_loop parse fs (sp, n, out))))
   \<and> (dup_free sp \<longrightarrow> dup_free (fst (periodic_loop parse so cs fs (sp, dl))))
   \<and> (reachable b \<longrightarrow>
        dup_free (seen_posts (bot_data b))
        \<and> (map_of (seen_posts (bot_data b)) u = Some ids \<longrightarrow> distinct ids)
        \<and> (case disk b of Stored d \<Rightarrow> dup_free (seen_posts d) | _ \<Rightarrow> True))"
proof -
  have r: "dup_free (seen_posts (bot_data b)) \<and> (case disk b of Stored d \<Rightarrow> dup_free (seen_posts d) | _ \<Rightarrow> True)"
    if "reachable b"
    using reachable_bot_ok [OF that]
    by (auto simp add: bot_ok_def data_ok_def file_ok_def split: data_file.splits)
  have a: "dup_free (add_feed_posts u ps (AList.update u [] sp))" if "dup_free sp"
    using that by (intro dup_free_add_feed_posts dup_free_update) simp_all
  have c: "dup_free (fst (check_feeds_loop parse fs (sp, n, out)))" if "dup_free sp"
    unfolding fst_check_feeds_loop using that by (rule dup_free_seen_after_loop)
  have p: "dup_free (fst (periodic_loop parse so cs fs (sp, dl)))" if "dup_free sp"
    unfolding fst_periodic_loop using that by (rule dup_free_seen_after_loop)
  have m: "distinct ids" if "reachable b" and "map_of (seen_posts (bot_data b)) u = Some ids"
    using r [OF that(1)] that(2) dup_free_map_of by blast
  show ?thesis using a c p r m by blast
qed

theorem seen_sets_duplicate_free_witness:
  "reachable (fst (add_feed ex_parse WriteOk [feed_d] bot0))
   \<and> seen_posts (bot_data (fst (add_feed ex_parse WriteOk [feed_d] bot0))) = [(feed_d, [lit ''id-1''])]
   \<and> dup_free (seen_posts (bot_data (fst (add_feed ex_parse WriteOk [feed_d] bot0))))
   \<and> disk (fst (add_feed ex_parse WriteOk [feed_d] bot0)) =
        Stored (bot_data (fst (add_feed ex_parse WriteOk [feed_d] bot0)))
   \<and> dup_free [(feed_a, [lit ''id-1''])]
   \<and> dup_free (add_feed_posts feed_a (get_feed_posts ex_parse feed_a)
        (AList.update feed_a [] [(feed_a, [lit ''id-1''])]))
   \<and> dup_free (fst (check_feeds_loop ex_parse [feed_a] ([(feed_a, [lit ''id-1''])], 0, [])))
   \<and> dup_free (fst (periodic_loop ex_parse (\<lambda>c m. True) [7] [feed_a]
        ([(feed_a, [lit ''id-1''])], [])))"
proof -
  let ?b = "fst (add_feed ex_parse WriteOk [feed_d] bot0)"
  have r: "reachable ?b" unfolding bot0_def by (intro reachable.by_add_feed reachable.fresh)
  have e: "seen_posts (bot_data ?b) = [(feed_d, [lit ''id-1''])]"
    by (simp add: add_feed_def Let_def ex_defs eval_defs)
  have s: "disk ?b = Stored (bot_data ?b)"
    by (simp add: add_feed_def Let_def ex_defs eval_defs)
  have d: "dup_free [(feed_a, [lit ''id-1''])]" by (simp add: dup_free_def)
  from seen_sets_duplicate_free [of "[(feed_a, [lit ''id-1''])]" feed_a
      "get_feed_posts ex_parse feed_a" ex_parse "[feed_a]" 0 "[]" "\<lambda>c m. True" "[7]" "[]" ?b "[]"]
    r e s d
  show ?thesis by simp
qed

section \<open>The invariant of the tracking state\<close>





lemma remove_feed_data:
  "u \<in> set (feeds (bot_data b)) \<Longrightarrow>
   bot_data (fst (remove_feed w True (u # rest) b)) =
     (bot_data b)\<lparr> feeds := remove1 u (feeds (bot_data b)),
                   seen_posts := AList.delete u (seen_posts (bot_data b)) \<rparr>"
  by (cases "map_of (seen_posts (bot_data b)) u = None")
     (simp_all add: remove_feed_def Let_def bot_data_save delete_absent)

lemma remove_feed_gone:
  assumes "distinct (feeds (bot_data b))" and "u \<in> set (feeds (bot_data b))"
  shows "u \<notin> set (feeds (bot_data (fst (remove_feed w True (u # rest) b))))
    \<and> map_of (seen_posts (bot_data (fst (remove_feed w True (u # rest) b)))) u = None"
  using assms by (simp add: remove_feed_data delete_conv')

lemma add_feed_data:
  "u \<notin> set (feeds (bot_data b)) \<Longrightarrow> get_feed_posts parse u \<noteq> [] \<Longrightarrow>
   bot_data (fst (add_feed parse w (u # rest) b)) =
     (register_feed u (bot_data b))\<lparr> seen_posts :=
        add_feed_posts u (get_feed_posts parse u) (seen_posts (register_feed u (bot_data b))) \<rparr>"
  by (simp add: add_feed_def Let_def bot_data_save)





section \<open>Removing a feed\<close>

lemma seen_of_add_feed_posts_cong:
  "seen_of sp u = seen_of sp' u \<Longrightarrow>
   seen_of (add_feed_posts u ps sp) u = seen_of (add_feed_posts u ps sp') u"
  by (induction ps arbitrary: sp sp') (simp_all add: seen_of_add_feed_post)

text \<open>
  C7. Removing a registered feed (of a feed list without duplicates) deletes its entry
  of the feed list and its seen-set, and the file is written with the result. When the
  same URL is added again, lines 144-145 give it an empty seen-set, so that what it holds
  after the pre-seeding is what pre-seeding an empty seen-set gives: nothing of the
  old history is kept.
\<close>

theorem remove_feed_atomic:
  assumes "distinct (feeds (bot_data b))" and "u \<in> set (feeds (bot_data b))"
  shows "u \<notin> set (feeds (bot_data (fst (remove_feed w True (u # rest) b))))
    \<and> map_of (seen_posts (bot_data (fst (remove_feed w True (u # rest) b)))) u = None
    \<and> feeds (bot_data (fst (remove_feed w True (u # rest) b))) = remove1 u (feeds (bot_data b))
    \<and> seen_posts (bot_data (fst (remove_feed w True (u # rest) b))) =
         AList.delete u (seen_posts (bot_data b))
    \<and> disk (fst (remove_feed WriteOk True (u # rest) b)) =
         Stored (bot_data (fst (remove_feed WriteOk True (u # rest) b)))
    \<and> seen_of (seen_posts (register_feed u
         (bot_data (fst (remove_feed w True (u # rest) b))))) u = []
    \<and> (get_feed_posts parse u \<noteq> [] \<longrightarrow>
         seen_of (seen_posts (bot_data (fst (add_feed parse w' (u # rest')
           (fst (remove_feed w True (u # rest) b)))))) u
         = seen_of (add_feed_posts u (get_feed_posts parse u) [(u, [])]) u)"
proof -
  let ?b1 = "fst (remove_feed w True (u # rest) b)"
  have g: "u \<notin> set (feeds (bot_data ?b1)) \<and> map_of (seen_posts (bot_data ?b1)) u = None"
    using remove_feed_gone [OF assms] by simp
  have e: "seen_of (seen_posts (register_feed u (bot_data ?b1))) u = []"
    by (simp add: register_feed_def seen_of_update)
  have s: "disk (fst (remove_feed WriteOk True (u # rest) b)) =
         Stored (bot_data (fst (remove_feed WriteOk True (u # rest) b)))"
    using assms(2) by (simp add: remove_feed_def Let_def save_def save_data_def)
  have a: "seen_of (seen_posts (bot_data (fst (add_feed parse w' (u # rest') ?b1)))) u
         = seen_of (add_feed_posts u (get_feed_posts parse u) [(u, [])]) u"
    if "get_feed_posts parse u \<noteq> []"
    using g that e
    by (simp add: add_feed_data) (rule seen_of_add_feed_posts_cong, simp add: seen_of_def)
  show ?thesis using g e s a by (simp add: remove_feed_data assms)
qed

theorem remove_feed_atomic_witness:
  "distinct (feeds (bot_data bot1)) \<and> feed_a \<in> set (feeds (bot_data bot1))
   \<and> seen_of (seen_posts (bot_data bot1)) feed_a = [lit ''id-1'', lit ''id-2'']
   \<and> bot_data (fst (remove_feed WriteOk True [feed_a] bot1)) =
        \<lparr> feeds = [default_feed], seen_posts = [], chat_ids = [42] \<rparr>
   \<and> get_feed_posts later_parse feed_a \<noteq> []
   \<and> seen_of (seen_posts (bot_data (fst (add_feed later_parse WriteOk [feed_a]
        (fst (remove_feed WriteOk True [feed_a] bot1)))))) feed_a = [lit ''id-2'']"
proof -
  have d: "distinct (feeds (bot_data bot1))" by (simp add: ex_defs eval_defs)
  have m: "feed_a \<in> set (feeds (bot_data bot1))" by (simp add: ex_defs)
  have h: "seen_of (seen_posts (bot_data bot1)) feed_a = [lit ''id-1'', lit ''id-2'']"
    by (simp add: bot1_def seen_of_def)
  have g: "get_feed_posts later_parse feed_a \<noteq> []"
    by (simp add: later_parse_def get_feed_posts_def)
  have p: "seen_of (add_feed_posts feed_a (get_feed_posts later_parse feed_a) [(feed_a, [])]) feed_a
      = [lit ''id-2'']"
    by (simp add: later_parse_def entry2_def eval_defs)
  have f: "bot_data (fst (remove_feed WriteOk True [feed_a] bot1)) =
        \<lparr> feeds = [default_feed], seen_posts = [], chat_ids = [42] \<rparr>"
    by (simp add: remove_feed_def Let_def ex_defs eval_defs)
  from remove_feed_atomic [OF d m, of WriteOk "[]" later_parse WriteOk "[]"] d m h g p f
  show ?thesis by simp
qed

section \<open>A feed that cannot be fetched during a check\<close>

lemma same_seen_refl: "same_seen sp sp"
  by (simp add: same_seen_def)

lemma same_seen_init_seen: "same_seen sp sp' \<Longrightarrow> same_seen (init_seen sp u) sp'"
  by (simp add: same_seen_def seen_of_init_seen)

lemma same_seen_init_seen_both:
  "same_seen sp sp' \<Longrightarrow> same_seen (init_seen sp u) (init_seen sp' u)"
  by (simp add: same_seen_def seen_of_init_seen)

lemma check_feeds_posts_cong:
  "same_seen sp sp' \<Longrightarrow>
   snd (check_feeds_posts u ps (sp, n, out)) = snd (check_feeds_posts u ps (sp', n, out))
   \<and> same_seen (fst (check_feeds_posts u ps (sp, n, out)))
                 (fst (check_feeds_posts u ps (sp', n, out)))"
proof (induction ps arbitrary: sp sp' n out)
  case Nil then show ?case by simp
next
  case (Cons p ps)
  have e: "seen_of sp u = seen_of sp' u" using Cons.prems by (simp add: same_seen_def)
  have a: "same_seen (append_seen sp u (post_id p)) (append_seen sp' u (post_id p))"
    using Cons.prems by (simp add: same_seen_def seen_of_append_seen)
  show ?case
  proof (cases "post_id p \<in> set (seen_of sp u)")
    case True then show ?thesis using e Cons.IH [OF Cons.prems] by simp
  next
    case False then show ?thesis using e Cons.IH [OF a] by simp
  qed
qed

lemma periodic_posts_cong:
  "same_seen sp sp' \<Longrightarrow>
   snd (periodic_posts so cs u ps (sp, out)) = snd (periodic_posts so cs u ps (sp', out))
   \<and> same_seen (fst (periodic_posts so cs u ps (sp, out)))
                 (fst (periodic_posts so cs u ps (sp', out)))"
proof (induction ps arbitrary: sp sp' out)
  case Nil then show ?case by simp
next
  case (Cons p ps)
  have e: "seen_of sp u = seen_of sp' u" using Cons.prems by (simp add: same_seen_def)
  have a: "same_seen (append_seen sp u (post_id p)) (append_seen sp' u (post_id p))"
    using Cons.prems by (simp add: same_seen_def seen_of_append_seen)
  show ?case
  proof (cases "post_id p \<in> set (seen_of sp u)")
    case True then show ?thesis using e Cons.IH [OF Cons.prems] by simp
  next
    case False then show ?thesis using e Cons.IH [OF a] by simp
  qed
qed

lemma check_feeds_loop_skip:
  assumes "parse u = ParseRaises"
  shows "same_seen sp sp' \<Longrightarrow>
   snd (check_feeds_loop parse fs (sp, n, out))
     = snd (check_feeds_loop parse (filter (\<lambda>v. v \<noteq> u) fs) (sp', n, out))
   \<and> same_seen (fst (check_feeds_loop parse fs (sp, n, out)))
                 (fst (check_feeds_loop parse (filter (\<lambda>v. v \<noteq> u) fs) (sp', n, out)))"
proof (induction fs arbitrary: sp sp' n out)
  case Nil then show ?case by simp
next
  case (Cons a fs)
  show ?case
  proof (cases "a = u")
    case True
    have "get_feed_posts parse u = []" using assms by (simp add: get_feed_posts_def)
    then show ?thesis
      using True Cons.IH [OF same_seen_init_seen [OF Cons.prems, of u], of n out] by simp
  next
    case False
    let ?ps = "get_feed_posts parse a"
    obtain tp m res where l: "check_feeds_posts a ?ps (init_seen sp a, n, out) = (tp, m, res)"
      by (cases "check_feeds_posts a ?ps (init_seen sp a, n, out)")
    obtain tp' m' res' where r: "check_feeds_posts a ?ps (init_seen sp' a, n, out) = (tp', m', res')"
      by (cases "check_feeds_posts a ?ps (init_seen sp' a, n, out)")
    from check_feeds_posts_cong [OF same_seen_init_seen_both [OF Cons.prems], of a ?ps a n out] l r
    have "m' = m" "res' = res" "same_seen tp tp'" by simp_all
    then show ?thesis using False l r Cons.IH [of tp tp' m res] by simp
  qed
qed

lemma periodic_loop_skip:
  assumes "parse u = ParseRaises"
  shows "same_seen sp sp' \<Longrightarrow>
   snd (periodic_loop parse so cs fs (sp, out))
     = snd (periodic_loop parse so cs (filter (\<lambda>v. v \<noteq> u) fs) (sp', out))
   \<and> same_seen (fst (periodic_loop parse so cs fs (sp, out)))
                 (fst (periodic_loop parse so cs (filter (\<lambda>v. v \<noteq> u) fs) (sp', out)))"
proof (induction fs arbitrary: sp sp' out)
  case Nil then show ?case by simp
next
  case (Cons a fs)
  show ?case
  proof (cases "a = u")
    case True
    have "get_feed_posts parse u = []" using assms by (simp add: get_feed_posts_def)
    then show ?thesis
      using True Cons.IH [OF same_seen_init_seen [OF Cons.prems, of u], of out] by simp
  next
    case False
    let ?ps = "get_feed_posts parse a"
    obtain tp res where l: "periodic_posts so cs a ?ps (init_seen sp a, out) = (tp, res)"
      by (cases "periodic_posts so cs a ?ps (init_seen sp a, out)")
    obtain tp' res' where r: "periodic_posts so cs a ?ps (init_seen sp' a, out) = (tp', res')"
      by (cases "periodic_posts so cs a ?ps (init_seen sp' a, out)")
    from periodic_posts_cong [OF same_seen_init_seen_both [OF Cons.prems], of so cs a ?ps a out] l r
    have "res' = res" "same_seen tp tp'" by simp_all
    then show ?thesis using False l r Cons.IH [of tp tp' res] by simp
  qed
qed

lemma snd_check_feeds:
  "snd (check_feeds parse w b) =
     (case snd (check_feeds_loop parse (feeds (bot_data b))
                  (seen_posts (bot_data b), 0, [lit ''Checking feeds for updates...''])) of
        (n, out) \<Rightarrow> out @ [if n = 0 then lit ''No new posts found.''
                           else lit ''Found '' @ str_nat n @ lit '' new post(s)!''])"
proof -
  obtain sp n out where e: "check_feeds_loop parse (feeds (bot_data b))
      (seen_posts (bot_data b), 0, [lit ''Checking feeds for updates...'']) = (sp, n, out)"
    by (cases "check_feeds_loop parse (feeds (bot_data b))
      (seen_posts (bot_data b), 0, [lit ''Checking feeds for updates...''])")
  show ?thesis by (simp add: check_feeds_def e)
qed

lemma snd_check_feeds_periodic:
  "snd (check_feeds_periodic parse so w b) =
     snd (periodic_loop parse so (chat_ids (bot_data b)) (feeds (bot_data b))
            (seen_posts (bot_data b), []))"
proof -
  obtain sp out where e: "periodic_loop parse so (chat_ids (bot_data b)) (feeds (bot_data b))
      (seen_posts (bot_data b), []) = (sp, out)"
    by (cases "periodic_loop parse so (chat_ids (bot_data b)) (feeds (bot_data b))
      (seen_posts (bot_data b), [])")
  show ?thesis by (simp add: check_feeds_periodic_def e)
qed

text \<open>
  C9. A fetch that raises is caught in \<open>get_feed_posts\<close> and counts as an empty item
  list: the loop over the feeds goes on to the next feed with the counter and the
  notifications unchanged (at most an empty seen-set is created for the failing feed).
  The cycle therefore reports exactly what a cycle over the feed list without the
  failing feed reports, and leaves the same seen-sets; the model functions are total,
  so the cycle returns.
\<close>

theorem failed_fetch_isolated:
  assumes "parse u = ParseRaises"
  shows "get_feed_posts parse u = []
    \<and> check_feeds_loop parse (u # fs) (sp, n, out) = check_feeds_loop parse fs (init_seen sp u, n, out)
    \<and> periodic_loop parse so cs (u # fs) (sp, dl) = periodic_loop parse so cs fs (init_seen sp u, dl)
    \<and> snd (check_feeds_loop parse fs (sp, n, out))
         = snd (check_feeds_loop parse (filter (\<lambda>v. v \<noteq> u) fs) (sp, n, out))
    \<and> same_seen (fst (check_feeds_loop parse fs (sp, n, out)))
         (fst (check_feeds_loop parse (filter (\<lambda>v. v \<noteq> u) fs) (sp, n, out)))
    \<and> snd (periodic_loop parse so cs fs (sp, dl))
         = snd (periodic_loop parse so cs (filter (\<lambda>v. v \<noteq> u) fs) (sp, dl))
    \<and> same_seen (fst (periodic_loop parse so cs fs (sp, dl)))
         (fst (periodic_loop parse so cs (filter (\<lambda>v. v \<noteq> u) fs) (sp, dl)))
    \<and> snd (check_feeds parse w b) = snd (check_feeds parse w (without_feed u b))
    \<and> snd (check_feeds_periodic parse so w b)
         = snd (check_feeds_periodic parse so w (without_feed u b))"
proof -
  have g: "get_feed_posts parse u = []" using assms by (simp add: get_feed_posts_def)
  have m: "snd (check_feeds parse w b) = snd (check_feeds parse w (without_feed u b))"
    using check_feeds_loop_skip [where parse = parse and u = u and sp = "seen_posts (bot_data b)"
        and sp' = "seen_posts (bot_data b)" and fs = "feeds (bot_data b)" and n = 0
        and out = "[lit ''Checking feeds for updates...'']"] assms
    by (simp add: snd_check_feeds without_feed_def same_seen_refl)
  have p: "snd (check_feeds_periodic parse so w b)
         = snd (check_feeds_periodic parse so w (without_feed u b))"
    using periodic_loop_skip [where parse = parse and u = u and sp = "seen_posts (bot_data b)"
        and sp' = "seen_posts (bot_data b)" and fs = "feeds (bot_data b)" and so = so
        and cs = "chat_ids (bot_data b)" and out = "[]"] assms
    by (simp add: snd_check_feeds_periodic without_feed_def same_seen_refl)
  show ?thesis
    using g m p check_feeds_loop_skip [where parse = parse and u = u and sp = sp and sp' = sp
        and fs = fs and n = n and out = out]
      periodic_loop_skip [where parse = parse and u = u and sp = sp and sp' = sp
        and fs = fs and so = so and cs = cs and out = dl] assms
    by (simp add: same_seen_refl)
qed

theorem failed_fetch_isolated_witness:
  "ex_parse feed_b = ParseRaises
   \<and> feeds (bot_data bot3) = [feed_a, feed_b, feed_c]
   \<and> feeds (bot_data (without_feed feed_b bot3)) = [feed_a, feed_c]
   \<and> snd (check_feeds ex_parse WriteOk bot3) =
        snd (check_feeds ex_parse WriteOk (without_feed feed_b bot3))
   \<and> snd (check_feeds ex_parse WriteOk bot3) =
        [lit ''Checking feeds for updates...'',
         format_message (post_of_entry entry1), format_message (post_of_entry entry2),
         format_message (post_of_entry entry3), lit ''Found 3 new post(s)!'']
   \<and> snd (check_feeds_periodic ex_parse (\<lambda>c m. True) WriteOk bot3) =
        [Sent 7 (format_message (post_of_entry entry1)),
         Sent 7 (format_message (post_of_entry entry2)),
         Sent 7 (format_message (post_of_entry entry3))]"
proof -
  have h: "ex_parse feed_b = ParseRaises" by (simp add: ex_defs lit_def)
  have wb: "without_feed feed_b bot3 =
      \<lparr> bot_data = \<lparr> feeds = [feed_a, feed_c], seen_posts = [], chat_ids = [7] \<rparr>,
        disk = Missing \<rparr>"
    by (simp add: without_feed_def ex_defs lit_def)
  have w: "feeds (bot_data (without_feed feed_b bot3)) = [feed_a, feed_c]"
    by (simp add: wb)
  have ia: "post_id (post_of_entry entry1) = lit ''id-1''"
    "post_id (post_of_entry entry2) = lit ''id-2''"
    "post_id (post_of_entry entry3) = lit ''https://c.example/3''"
    by (simp_all add: ex_defs post_of_entry_def get_default_def)
  have pa: "get_feed_posts ex_parse feed_a = [post_of_entry entry1, post_of_entry entry2]"
    "get_feed_posts ex_parse feed_c = [post_of_entry entry3]"
    by (simp_all add: get_feed_posts_def ex_parse_def feed_a_def feed_c_def feed_d_def lit_def)
  have ne: "feed_a \<noteq> feed_c" "lit ''id-1'' \<noteq> lit ''id-2''"
    by (simp_all add: ex_defs lit_def)
  have c: "snd (check_feeds ex_parse WriteOk (without_feed feed_b bot3)) =
        [lit ''Checking feeds for updates...'',
         format_message (post_of_entry entry1), format_message (post_of_entry entry2),
         format_message (post_of_entry entry3), lit ''Found 3 new post(s)!'']"
    using ne by (simp add: check_feeds_def wb pa ia seen_of_def
        append_seen_def init_seen_def lit_def)
  have p: "snd (check_feeds_periodic ex_parse (\<lambda>c m. True) WriteOk (without_feed feed_b bot3)) =
        [Sent 7 (format_message (post_of_entry entry1)),
         Sent 7 (format_message (post_of_entry entry2)),
         Sent 7 (format_message (post_of_entry entry3))]"
    using ne by (simp add: check_feeds_periodic_def wb pa ia seen_of_def
        append_seen_def init_seen_def send_all_def)
  from failed_fetch_isolated [of ex_parse feed_b "[]" "[]" 0 "[]" "\<lambda>c m. True" "[]" "[]" WriteOk bot3]
    h w c p
  show ?thesis by (simp add: bot3_def)
qed

section \<open>Adding a feed pre-seeds its history\<close>

lemma seen_of_add_feed_posts_fresh:
  "distinct (map post_id ps) \<Longrightarrow> post_id ` set ps \<inter> set (seen_of sp u) = {} \<Longrightarrow>
   seen_of (add_feed_posts u ps sp) u = seen_of sp u @ map post_id ps"
proof (induction ps arbitrary: sp)
  case Nil then show ?case by simp
next
  case (Cons p ps)
  have n: "post_id p \<notin> set (seen_of sp u)" using Cons.prems by auto
  have "post_id ` set ps \<inter> set (seen_of (add_feed_post u p sp) u) = {}"
    using Cons.prems n by (auto simp add: seen_of_add_feed_post)
  from Cons.IH [OF _ this] Cons.prems n show ?case
    by (simp add: seen_of_add_feed_post)
qed

lemma check_feeds_loop_append:
  "check_feeds_loop parse (xs @ ys) s = check_feeds_loop parse ys (check_feeds_loop parse xs s)"
proof (induction xs arbitrary: s)
  case Nil show ?case by simp
next
  case (Cons a xs)
  obtain sp n out where s: "s = (sp, n, out)" by (cases s)
  show ?case unfolding s using Cons by simp
qed

lemma periodic_loop_append:
  "periodic_loop parse so cs (xs @ ys) s =
     periodic_loop parse so cs ys (periodic_loop parse so cs xs s)"
proof (induction xs arbitrary: s)
  case Nil show ?case by simp
next
  case (Cons a xs)
  obtain sp out where s: "s = (sp, out)" by (cases s)
  show ?case unfolding s using Cons by simp
qed

lemma check_feeds_loop_covered_last:
  assumes "covered parse sp u"
  shows "check_feeds_loop parse (fs @ [u]) (sp, n, out) = check_feeds_loop parse fs (sp, n, out)"
proof -
  obtain tp m res where e: "check_feeds_loop parse fs (sp, n, out) = (tp, m, res)"
    by (cases "check_feeds_loop parse fs (sp, n, out)")
  have "tp = seen_after_loop parse fs sp"
    using fst_check_feeds_loop [of parse fs sp n out] e by simp
  then have "covered parse tp u" using assms by (simp add: covered_loop_mono)
  then have "check_feeds_loop parse [u] (tp, m, res) = (tp, m, res)"
    by (intro check_feeds_loop_stable) simp
  then show ?thesis by (simp only: check_feeds_loop_append e)
qed

lemma periodic_loop_covered_last:
  assumes "covered parse sp u"
  shows "periodic_loop parse so cs (fs @ [u]) (sp, dl) = periodic_loop parse so cs fs (sp, dl)"
proof -
  obtain tp res where e: "periodic_loop parse so cs fs (sp, dl) = (tp, res)"
    by (cases "periodic_loop parse so cs fs (sp, dl)")
  have "tp = seen_after_loop parse fs sp"
    using fst_periodic_loop [of parse so cs fs sp dl] e by simp
  then have "covered parse tp u" using assms by (simp add: covered_loop_mono)
  then have "periodic_loop parse so cs [u] (tp, res) = (tp, res)"
    by (intro periodic_loop_stable) simp
  then show ?thesis by (simp only: periodic_loop_append e)
qed

lemma without_feed_last:
  "u \<notin> set fs \<Longrightarrow> feeds (bot_data b) = fs @ [u] \<Longrightarrow>
   without_feed u b = b\<lparr> bot_data := (bot_data b)\<lparr> feeds := fs \<rparr> \<rparr>"
proof -
  assume n: "u \<notin> set fs" and f: "feeds (bot_data b) = fs @ [u]"
  have "filter (\<lambda>v. v \<noteq> u) fs = fs" using n by (induction fs) auto
  then show ?thesis by (simp add: without_feed_def f)
qed

text \<open>
  A feed whose fetch returns two items with the same id gets a seen-set of size one, not
  two: the pre-seeding loop skips an id that is already in the seen-set.
\<close>

theorem add_feed_duplicate_ids:
  "feed_d \<notin> set (feeds (bot_data bot0))
   \<and> length (get_feed_posts ex_parse feed_d) = 2
   \<and> seen_of (seen_posts (bot_data (fst (add_feed ex_parse WriteOk [feed_d] bot0)))) feed_d
        = [lit ''id-1'']
   \<and> length (seen_of (seen_posts (bot_data (fst (add_feed ex_parse WriteOk [feed_d] bot0)))) feed_d)
        = 1"
  by (simp add: add_feed_def Let_def ex_defs eval_defs)

text \<open>
  C3, as amended. A successful \<open>add_feed\<close> appends the feed to the list and leaves it a
  seen-set that holds the id of every fetched item exactly once: its size is the number
  of distinct ids among the N items, which is N when the ids are pairwise distinct (and
  then the seen-set is the list of the ids in fetch order). A check that follows while
  the feed returns the same items finds nothing new for the feed: the loop over its
  posts changes nothing, and the whole cycle, manual or periodic, does and reports what
  the cycle over the other feeds does.
\<close>

theorem add_feed_preseeds:
  assumes "u \<notin> set (feeds (bot_data b))" and "get_feed_posts parse u \<noteq> []"
  shows "feeds (bot_data (fst (add_feed parse w (u # rest) b))) = feeds (bot_data b) @ [u]
    \<and> distinct (seen_of (seen_posts (bot_data (fst (add_feed parse w (u # rest) b)))) u)
    \<and> set (seen_of (seen_posts (bot_data (fst (add_feed parse w (u # rest) b)))) u)
         = post_id ` set (get_feed_posts parse u)
    \<and> length (seen_of (seen_posts (bot_data (fst (add_feed parse w (u # rest) b)))) u)
         = card (post_id ` set (get_feed_posts parse u))
    \<and> (distinct (map post_id (get_feed_posts parse u)) \<longrightarrow>
          seen_of (seen_posts (bot_data (fst (add_feed parse w (u # rest) b)))) u
            = map post_id (get_feed_posts parse u)
          \<and> length (seen_of (seen_posts (bot_data (fst (add_feed parse w (u # rest) b)))) u)
            = length (get_feed_posts parse u))
    \<and> check_feeds_posts u (get_feed_posts parse u)
          (seen_posts (bot_data (fst (add_feed parse w (u # rest) b))), n, out)
         = (seen_posts (bot_data (fst (add_feed parse w (u # rest) b))), n, out)
    \<and> periodic_posts so cs u (get_feed_posts parse u)
          (seen_posts (bot_data (fst (add_feed parse w (u # rest) b))), dl)
         = (seen_posts (bot_data (fst (add_feed parse w (u # rest) b))), dl)
    \<and> check_feeds_loop parse (feeds (bot_data (fst (add_feed parse w (u # rest) b))))
          (seen_posts (bot_data (fst (add_feed parse w (u # rest) b))), n, out)
         = check_feeds_loop parse (feeds (bot_data b))
          (seen_posts (bot_data (fst (add_feed parse w (u # rest) b))), n, out)
    \<and> periodic_loop parse so cs (feeds (bot_data (fst (add_feed parse w (u # rest) b))))
          (seen_posts (bot_data (fst (add_feed parse w (u # rest) b))), dl)
         = periodic_loop parse so cs (feeds (bot_data b))
          (seen_posts (bot_data (fst (add_feed parse w (u # rest) b))), dl)
    \<and> snd (check_feeds parse w' (fst (add_feed parse w (u # rest) b)))
         = snd (check_feeds parse w' (without_feed u (fst (add_feed parse w (u # rest) b))))
    \<and> snd (check_feeds_periodic parse so w' (fst (add_feed parse w (u # rest) b)))
         = snd (check_feeds_periodic parse so w'
             (without_feed u (fst (add_feed parse w (u # rest) b))))"
proof -
  let ?ps = "get_feed_posts parse u"
  let ?B = "fst (add_feed parse w (u # rest) b)"
  let ?S = "seen_posts (bot_data ?B)"
  let ?R = "seen_posts (register_feed u (bot_data b))"
  have S: "?S = add_feed_posts u ?ps ?R"
    using assms by (simp add: add_feed_data)
  have F: "feeds (bot_data ?B) = feeds (bot_data b) @ [u]"
    using assms by (simp add: add_feed_data register_feed_def)
  have z: "seen_of ?R u = []" by (simp add: register_feed_def seen_of_update)
  have d: "distinct (seen_of ?S u)"
    unfolding S by (rule distinct_seen_of_add_feed_posts) (simp add: z)
  have e: "set (seen_of ?S u) = post_id ` set ?ps"
    unfolding S by (simp add: set_seen_of_add_feed_posts z)
  have l: "length (seen_of ?S u) = card (post_id ` set ?ps)"
    using distinct_card [OF d] e by simp
  have x: "seen_of ?S u = map post_id ?ps \<and> length (seen_of ?S u) = length ?ps"
    if "distinct (map post_id ?ps)"
    unfolding S using that by (simp add: seen_of_add_feed_posts_fresh z)
  have c: "covered parse ?S u"
    unfolding covered_def S
    by (simp add: set_seen_of_add_feed_posts map_of_add_feed_posts_Some register_feed_def
        update_conv')
  have m: "check_feeds_posts u ?ps (?S, n, out) = (?S, n, out)"
    by (rule check_feeds_posts_stable) (simp add: e)
  have p: "periodic_posts so cs u ?ps (?S, dl) = (?S, dl)"
    by (rule periodic_posts_stable) (simp add: e)
  have ml: "check_feeds_loop parse (feeds (bot_data ?B)) (?S, n, out)
      = check_feeds_loop parse (feeds (bot_data b)) (?S, n, out)"
    unfolding F by (rule check_feeds_loop_covered_last [OF c])
  have pl: "periodic_loop parse so cs (feeds (bot_data ?B)) (?S, dl)
      = periodic_loop parse so cs (feeds (bot_data b)) (?S, dl)"
    unfolding F by (rule periodic_loop_covered_last [OF c])
  have wf: "without_feed u ?B = ?B\<lparr> bot_data := (bot_data ?B)\<lparr> feeds := feeds (bot_data b) \<rparr> \<rparr>"
    using assms(1) F by (rule without_feed_last)
  have mc: "snd (check_feeds parse w' ?B) = snd (check_feeds parse w' (without_feed u ?B))"
    unfolding snd_check_feeds wf
    using check_feeds_loop_covered_last [OF c, of "feeds (bot_data b)" 0
        "[lit ''Checking feeds for updates...'']"]
    by (simp add: F)
  have pc: "snd (check_feeds_periodic parse so w' ?B)
      = snd (check_feeds_periodic parse so w' (without_feed u ?B))"
    unfolding snd_check_feeds_periodic wf
    using periodic_loop_covered_last [OF c, of so "chat_ids (bot_data ?B)" "feeds (bot_data b)" "[]"]
    by (simp add: F)
  show ?thesis using F d e l x m p ml pl mc pc by simp
qed

theorem add_feed_preseeds_witness:
  "feed_a \<notin> set (feeds (bot_data bot0))
   \<and> get_feed_posts ex_parse feed_a = [post_of_entry entry1, post_of_entry entry2]
   \<and> feeds (bot_data (fst (add_feed ex_parse WriteOk [feed_a] bot0))) = [default_feed, feed_a]
   \<and> seen_of (seen_posts (bot_data (fst (add_feed ex_parse WriteOk [feed_a] bot0)))) feed_a
        = [lit ''id-1'', lit ''id-2'']
   \<and> length (seen_of (seen_posts (bot_data (fst (add_feed ex_parse WriteOk [feed_a] bot0)))) feed_a)
        = 2
   \<and> snd (check_feeds ex_parse WriteOk (fst (add_feed ex_parse WriteOk [feed_a] bot0)))
        = snd (check_feeds ex_parse WriteOk
            (without_feed feed_a (fst (add_feed ex_parse WriteOk [feed_a] bot0))))
   \<and> snd (check_feeds ex_parse WriteOk (fst (add_feed ex_parse WriteOk [feed_a] bot0)))
        = [lit ''Checking feeds for updates...'', lit ''No new posts found.'']"
proof -
  have n: "feed_a \<notin> set (feeds (bot_data bot0))" by (simp add: ex_defs eval_defs)
  have g: "get_feed_posts ex_parse feed_a = [post_of_entry entry1, post_of_entry entry2]"
    by (simp add: get_feed_posts_def ex_parse_def)
  have i: "map post_id [post_of_entry entry1, post_of_entry entry2] = [lit ''id-1'', lit ''id-2'']"
    by (simp add: entry1_def entry2_def post_of_entry_def get_default_def)
  have dd: "distinct [lit ''id-1'', lit ''id-2'']" by (simp add: lit_def)
  have f0: "feeds (bot_data bot0) = [default_feed]" by (simp add: ex_defs eval_defs)
  have q: "snd (check_feeds ex_parse WriteOk (fst (add_feed ex_parse WriteOk [feed_a] bot0)))
        = [lit ''Checking feeds for updates...'', lit ''No new posts found.'']"
    by (simp add: add_feed_def check_feeds_def Let_def ex_defs eval_defs)
  from add_feed_preseeds [of feed_a bot0 ex_parse WriteOk "[]" 0 "[]" "\<lambda>c m. True" "[]" "[]" WriteOk]
    n g i dd f0 q
  show ?thesis by simp
qed

section \<open>Overlapping manual and scheduled checks\<close>













end
